theory Spec2Isabelle
  imports Complex_Main "HOL-Library.Word"
begin

section \<open>The L-metric of mlpack (core/kernels/lmetric.hpp)\<close>

text \<open>
  The header defines one function, \<^verbatim>\<open>LMetric<t_pow, t_take_root>::Evaluate\<close>, and three
  typedefs that fix its template parameters. Its arithmetic is that of \<^verbatim>\<open>double\<close>, so the
  model starts with the binary64 numbers of IEEE 754 and their rounding (to nearest, ties to
  even, the default mode), with overflow to an infinity, gradual underflow, and NaN.
\<close>

subsection \<open>Binary64 numbers\<close>

text \<open>
  A \<^verbatim>\<open>double\<close> is a finite number, one of the two infinities, or a NaN. The finite ones
  are the reals \<open>m * 2^e\<close> with \<open>|m| < 2^53\<close> and \<open>-1074 \<le> e \<le> 971\<close>; they are the reals
  that rounding leaves unchanged (\<open>is_double\<close> below). The type has a value \<open>Finite x\<close> for
  every real \<open>x\<close>; the arithmetic only produces doubles, a theorem about all values holds for
  all doubles, and a counterexample states that its inputs are doubles. The sign of a zero
  and the payload of a NaN are not represented: \<^verbatim>\<open>Evaluate\<close> passes every difference
  through \<^verbatim>\<open>fabs\<close> and starts its sum at \<open>+0\<close>, so no result of it depends on the sign of
  a zero.
\<close>

datatype double = Finite real | PInf | NInf | NaN

fun dneg :: "double \<Rightarrow> double" where
  "dneg (Finite x) = Finite (- x)"
| "dneg PInf = NInf"
| "dneg NInf = PInf"
| "dneg NaN = NaN"

text \<open>Rounding a non-negative real to the nearest integer, a tie to the even one.\<close>

definition rhe :: "real \<Rightarrow> int" where
  "rhe q =
     (let f = \<lfloor>q\<rfloor>; d = q - of_int f
      in if d < 1 / 2 then f else if 1 / 2 < d then f + 1 else if even f then f else f + 1)"

text \<open>
  Rounding a positive real to binary64, to nearest with ties to even: the unit in the last
  place is \<open>2^e\<close>, where \<open>e\<close> is 52 below the binary exponent of \<open>x\<close> and at least -1074 (the
  subnormal range); a rounded magnitude of \<open>2^1024\<close> (\<open>huge\<close>) or more is an overflow.
\<close>

definition huge :: real where
  "huge = 2 ^ 1024"

definition ulp_exp :: "real \<Rightarrow> int" where
  "ulp_exp x = max (\<lfloor>log 2 x\<rfloor> - 52) (- 1074)"

definition round_pos :: "real \<Rightarrow> double" where
  "round_pos x =
     (let e = ulp_exp x; r = of_int (rhe (x / 2 powi e)) * 2 powi e
      in if huge \<le> r then PInf else Finite r)"

definition round64 :: "real \<Rightarrow> double" where
  "round64 x =
     (if x = 0 then Finite 0
      else if 0 < x then round_pos x
      else dneg (round_pos (- x)))"

definition is_double :: "double \<Rightarrow> bool" where
  "is_double d = (case d of Finite x \<Rightarrow> round64 x = Finite x | _ \<Rightarrow> True)"

text \<open>A coordinate is finite when it is neither an infinity nor a NaN.\<close>

definition is_finite :: "double \<Rightarrow> bool" where
  "is_finite d = (case d of Finite x \<Rightarrow> True | _ \<Rightarrow> False)"

definition all_finite :: "double list \<Rightarrow> bool" where
  "all_finite v = list_all is_finite v"

text \<open>The comparison \<^verbatim>\<open>x <= y\<close> of two doubles; it is false when either is a NaN.\<close>

fun dle :: "double \<Rightarrow> double \<Rightarrow> bool" where
  "dle NaN _ = False"
| "dle _ NaN = False"
| "dle NInf _ = True"
| "dle _ PInf = True"
| "dle PInf _ = False"
| "dle _ NInf = False"
| "dle (Finite x) (Finite y) = (x \<le> y)"

definition nonneg :: "double \<Rightarrow> bool" where
  "nonneg d = dle (Finite 0) d"

subsection \<open>Binary64 arithmetic\<close>

fun fadd :: "double \<Rightarrow> double \<Rightarrow> double" where
  "fadd NaN _ = NaN"
| "fadd _ NaN = NaN"
| "fadd PInf NInf = NaN"
| "fadd NInf PInf = NaN"
| "fadd PInf _ = PInf"
| "fadd _ PInf = PInf"
| "fadd NInf _ = NInf"
| "fadd _ NInf = NInf"
| "fadd (Finite x) (Finite y) = round64 (x + y)"

definition fsub :: "double \<Rightarrow> double \<Rightarrow> double" where
  "fsub x y = fadd x (dneg y)"


text \<open>
  The quotient \<^verbatim>\<open>x / y\<close>. A non-zero number over zero is an infinity (the zero divisor of
  \<^verbatim>\<open>1.0 / t_pow\<close> comes from the integer 0 and is \<open>+0\<close>), zero over zero is a NaN.
\<close>

fun fdiv :: "double \<Rightarrow> double \<Rightarrow> double" where
  "fdiv NaN _ = NaN"
| "fdiv _ NaN = NaN"
| "fdiv (Finite x) (Finite y) =
     (if y = 0 then (if x = 0 then NaN else if 0 < x then PInf else NInf)
      else round64 (x / y))"
| "fdiv (Finite x) _ = Finite 0"
| "fdiv d (Finite y) = (if 0 \<le> y then d else dneg d)"
| "fdiv _ _ = NaN"

fun fabs :: "double \<Rightarrow> double" where
  "fabs (Finite x) = Finite \<bar>x\<bar>"
| "fabs PInf = PInf"
| "fabs NInf = PInf"
| "fabs NaN = NaN"

text \<open>
  \<^verbatim>\<open>pow(x, y)\<close> of the C library. The special values are those of C99, Annex F.9.4.4. On
  finite arguments with a real result the library is taken to return the correctly rounded
  power; the C standard leaves the accuracy of \<^verbatim>\<open>pow\<close> to the implementation.
\<close>

definition odd_int :: "real \<Rightarrow> bool" where
  "odd_int y \<longleftrightarrow> y = of_int \<lfloor>y\<rfloor> \<and> odd \<lfloor>y\<rfloor>"

fun pow :: "double \<Rightarrow> double \<Rightarrow> double" where
  "pow x (Finite y) =
     (if y = 0 then Finite 1
      else case x of
        NaN \<Rightarrow> NaN
      | PInf \<Rightarrow> (if 0 < y then PInf else Finite 0)
      | NInf \<Rightarrow> (if 0 < y then (if odd_int y then NInf else PInf) else Finite 0)
      | Finite b \<Rightarrow>
          (if b = 0 then (if 0 < y then Finite 0 else PInf)
           else if 0 < b then round64 (b powr y)
           else if y = of_int \<lfloor>y\<rfloor> then round64 (b powi \<lfloor>y\<rfloor>)
           else NaN))"
| "pow x NaN = (if x = Finite 1 then Finite 1 else NaN)"
| "pow x PInf =
     (case x of
        NaN \<Rightarrow> NaN
      | Finite b \<Rightarrow> (if \<bar>b\<bar> < 1 then Finite 0 else if \<bar>b\<bar> = 1 then Finite 1 else PInf)
      | _ \<Rightarrow> PInf)"
| "pow x NInf =
     (case x of
        NaN \<Rightarrow> NaN
      | Finite b \<Rightarrow> (if \<bar>b\<bar> < 1 then PInf else if \<bar>b\<bar> = 1 then Finite 1 else Finite 0)
      | _ \<Rightarrow> Finite 0)"

declare pow.simps [simp del]

subsection \<open>Vectors and the template parameters\<close>

text \<open>
  An \<^verbatim>\<open>arma::vec\<close> is a list of doubles, \<^verbatim>\<open>n_elem\<close> its length. The element access
  \<^verbatim>\<open>v[i]\<close> makes no bounds check in the source; reading past the end is undefined there
  and is the error \<open>OutOfBounds\<close> here. The template parameter \<^verbatim>\<open>t_pow\<close> is an \<^verbatim>\<open>int\<close>,
  a signed word of 32 bits; its conversion to \<^verbatim>\<open>double\<close> is exact.
\<close>

type_synonym vec = "double list"

datatype error = OutOfBounds

definition n_elem :: "vec \<Rightarrow> nat" where
  "n_elem v = length v"

definition elem :: "vec \<Rightarrow> nat \<Rightarrow> error + double" where
  "elem v i = (if i < n_elem v then Inr (v ! i) else Inl OutOfBounds)"

text \<open>The vector whose coordinates are the given integers.\<close>

definition of_ints :: "int list \<Rightarrow> vec" where
  "of_ints ns = map (\<lambda>n. Finite (of_int n)) ns"



definition of_int32 :: "32 word \<Rightarrow> double" where
  "of_int32 n = Finite (of_int (sint n))"

subsection \<open>Evaluate\<close>

text \<open>
  The accumulation loop
  \<^verbatim>\<open>for (size_t i = 0; i < a.n_elem; i++) sum += pow(fabs(a[i] - b[i]), t_pow);\<close>
  as a function of the loop counter \<open>i\<close> and the running \<open>sum\<close> (here \<open>s\<close>).
\<close>

function Evaluate_loop :: "32 word \<Rightarrow> vec \<Rightarrow> vec \<Rightarrow> nat \<Rightarrow> double \<Rightarrow> error + double" where
  "Evaluate_loop t_pow a b i s =
     (if i < n_elem a then
        (case elem a i of Inl e \<Rightarrow> Inl e | Inr ai \<Rightarrow>
        (case elem b i of Inl e \<Rightarrow> Inl e | Inr bi \<Rightarrow>
           Evaluate_loop t_pow a b (i + 1)
             (fadd s (pow (fabs (fsub ai bi)) (of_int32 t_pow)))))
      else Inr s)"
  by pat_completeness auto
termination
  by (relation "measure (\<lambda>(t_pow, a, b, i, s). n_elem a - i)") auto

declare Evaluate_loop.simps [simp del]

text \<open>
  \<^verbatim>\<open>Evaluate\<close>: run the loop from \<open>i = 0\<close>, \<open>sum = 0\<close>; return the sum when
  \<^verbatim>\<open>t_take_root\<close> is false, and \<^verbatim>\<open>pow(sum, 1.0 / t_pow)\<close> otherwise.
\<close>

definition Evaluate :: "32 word \<Rightarrow> bool \<Rightarrow> vec \<Rightarrow> vec \<Rightarrow> error + double" where
  "Evaluate t_pow t_take_root a b =
     (case Evaluate_loop t_pow a b 0 (Finite 0) of Inl e \<Rightarrow> Inl e | Inr s \<Rightarrow>
        if \<not> t_take_root then Inr s
        else Inr (pow s (fdiv (Finite 1) (of_int32 t_pow))))"

text \<open>The convenience typedefs.\<close>

definition ManhattanDistance :: "vec \<Rightarrow> vec \<Rightarrow> error + double" where
  "ManhattanDistance = Evaluate 1 False"

definition SquaredEuclideanDistance :: "vec \<Rightarrow> vec \<Rightarrow> error + double" where
  "SquaredEuclideanDistance = Evaluate 2 False"

definition EuclideanDistance :: "vec \<Rightarrow> vec \<Rightarrow> error + double" where
  "EuclideanDistance = Evaluate 2 True"

subsection \<open>The numeric semantics of the specification\<close>

text \<open>
  The specification's words: the terms \<open>|a_i - b_i|\<close> raised to the power, added with
  floating-point addition in ascending index order, and a power function with exponent
  \<open>1/power\<close> applied to the final sum.
\<close>

definition terms_of :: "32 word \<Rightarrow> vec \<Rightarrow> vec \<Rightarrow> double list" where
  "terms_of p x y = map (\<lambda>(u, v). pow (fabs (fsub u v)) (of_int32 p)) (zip x y)"

definition fl_sum :: "32 word \<Rightarrow> vec \<Rightarrow> vec \<Rightarrow> double" where
  "fl_sum p x y = foldl fadd (Finite 0) (terms_of p x y)"

definition fl_dist :: "32 word \<Rightarrow> vec \<Rightarrow> vec \<Rightarrow> double" where
  "fl_dist p x y = pow (fl_sum p x y) (fdiv (Finite 1) (of_int32 p))"

subsection \<open>The formula in exact arithmetic\<close>

text \<open>
  The sum \<open>\<Sum> |x_i - y_i|^p\<close> of the formula read over the reals, with no rounding: the value
  that the un-rooted result of \<^verbatim>\<open>Evaluate\<close> is compared with.
\<close>

definition lp_sum :: "nat \<Rightarrow> real list \<Rightarrow> real list \<Rightarrow> real" where
  "lp_sum p x y = (\<Sum>i<length x. \<bar>x ! i - y ! i\<bar> ^ p)"

text \<open>The terms of that sum for vectors of integers.\<close>

definition int_terms :: "nat \<Rightarrow> int list \<Rightarrow> int list \<Rightarrow> int list" where
  "int_terms P xs ys = map (\<lambda>(x, y). \<bar>x - y\<bar> ^ P) (zip xs ys)"

section \<open>Rounding to binary64\<close>

text \<open>
  Facts about the rounding function: it is the identity on the numbers \<open>m * 2^e\<close> of the
  format, its results are numbers of the format, and in the normal range its error is at
  most half a unit in the last place.
\<close>

lemma rhe_of_int [simp]: "rhe (of_int n) = n"
  by (simp add: rhe_def)

lemma rhe_floor_le: "\<lfloor>q\<rfloor> \<le> rhe q"
  by (simp add: rhe_def Let_def)

lemma rhe_le_floor: "rhe q \<le> \<lfloor>q\<rfloor> + 1"
  by (simp add: rhe_def Let_def)

lemma rhe_error: "\<bar>of_int (rhe q) - q\<bar> \<le> 1 / 2"
proof -
  have "of_int \<lfloor>q\<rfloor> \<le> q" "q < of_int \<lfloor>q\<rfloor> + 1" by linarith+
  then show ?thesis
    by (auto simp: rhe_def Let_def abs_le_iff)
qed

lemma rhe_mono: "q \<le> q' \<Longrightarrow> rhe q \<le> rhe q'"
proof -
  assume le: "q \<le> q'"
  then have fl: "\<lfloor>q\<rfloor> \<le> \<lfloor>q'\<rfloor>" by (rule floor_mono)
  show ?thesis
  proof (cases "\<lfloor>q\<rfloor> = \<lfloor>q'\<rfloor>")
    case True
    with le show ?thesis by (auto simp: rhe_def Let_def)
  next
    case False
    with fl have "\<lfloor>q\<rfloor> + 1 \<le> \<lfloor>q'\<rfloor>" by simp
    with rhe_le_floor[of q] rhe_floor_le[of q'] show ?thesis by linarith
  qed
qed

lemma rhe_ge: "of_int n \<le> q \<Longrightarrow> n \<le> rhe q"
  using rhe_mono[of "of_int n" q] by simp

lemma rhe_le: "q \<le> of_int n \<Longrightarrow> rhe q \<le> n"
  using rhe_mono[of q "of_int n"] by simp

lemma two_powi_pos [simp]: "0 < (2::real) powi e"
  by simp

lemma two_powr_int: "(2::real) powr (of_int k) = 2 powi k"
  by (simp add: powr_real_of_int')

lemma two_powr_int1: "(2::real) powr (of_int k + 1) = 2 powi (k + 1)"
  using two_powr_int[of "k + 1"] by simp

lemma floor_log2_bounds:
  assumes "0 < x"
  shows "2 powi \<lfloor>log 2 x\<rfloor> \<le> x" and "x < 2 powi (\<lfloor>log 2 x\<rfloor> + 1)"
proof -
  have "2 powr (of_int \<lfloor>log 2 x\<rfloor>) \<le> x \<and> x < 2 powr (of_int \<lfloor>log 2 x\<rfloor> + 1)"
    using floor_log_eq_powr_iff[of x 2 "\<lfloor>log 2 x\<rfloor>"] assms by simp
  then show "2 powi \<lfloor>log 2 x\<rfloor> \<le> x" and "x < 2 powi (\<lfloor>log 2 x\<rfloor> + 1)"
    by (simp_all only: two_powr_int two_powr_int1)
qed

lemma floor_log2_eq:
  assumes "2 powi k \<le> x" and "x < 2 powi (k + 1)"
  shows "\<lfloor>log 2 x\<rfloor> = k"
proof -
  have pos: "0 < x" using assms(1) two_powi_pos[of k] by linarith
  have "2 powr (of_int k) \<le> x \<and> x < 2 powr (of_int k + 1)"
    using assms by (simp only: two_powr_int two_powr_int1)
  then show ?thesis
    using floor_log_eq_powr_iff[of x 2 k] pos by simp
qed

lemma two_powi_less_iff: "(2::real) powi m < 2 powi n \<longleftrightarrow> m < n"
proof
  assume "(2::real) powi m < 2 powi n"
  show "m < n"
  proof (rule ccontr)
    assume "\<not> m < n"
    then have "n \<le> m" by simp
    then have "(2::real) powi n \<le> 2 powi m" by (intro power_int_increasing) simp_all
    with \<open>(2::real) powi m < 2 powi n\<close> show False by simp
  qed
next
  assume "m < n"
  then show "(2::real) powi m < 2 powi n" by (intro power_int_strict_increasing) simp_all
qed

lemma two_powi_le_iff: "(2::real) powi m \<le> 2 powi n \<longleftrightarrow> m \<le> n"
  using two_powi_less_iff[of n m] by (simp add: not_less[symmetric])

lemma two_powi_add: "(2::real) powi (m + n) = 2 powi m * 2 powi n"
  by (simp add: power_int_add)

lemma two_powi_diff: "(2::real) powi (m - n) = 2 powi m / 2 powi n"
  by (simp add: power_int_diff)

lemma two_powi_nat: "0 \<le> n \<Longrightarrow> (2::real) powi n = of_int (2 ^ nat n)"
  by (simp add: power_int_def)

lemma round_pos_eval:
  assumes "2 powi k \<le> x" and "x < 2 powi (k + 1)"
  shows "round_pos x =
    (let e = max (k - 52) (- 1074); r = of_int (rhe (x / 2 powi e)) * 2 powi e
     in if huge \<le> r then PInf else Finite r)"
  using floor_log2_eq[OF assms] by (simp add: round_pos_def ulp_exp_def)

lemma ulp_exp_le:
  assumes x: "x = of_int m * 2 powi e" and m: "0 < m" "m < 2 ^ 53" and e: "- 1074 \<le> e"
  shows "ulp_exp x \<le> e"
proof -
  have pos: "0 < x" using x m by simp
  have "x < 2 ^ 53 * 2 powi e"
  proof -
    have "(of_int m :: real) < 2 ^ 53" using m(2) by (metis of_int_less_numeral_power_cancel_iff)
    then show ?thesis unfolding x by simp
  qed
  also have "(2::real) ^ 53 * 2 powi e = 2 powi (e + 53)"
    by (simp add: power_int_add)
  finally have "x < 2 powi (e + 53)" .
  with floor_log2_bounds(1)[OF pos] have "(2::real) powi \<lfloor>log 2 x\<rfloor> < 2 powi (e + 53)"
    by linarith
  then have "\<lfloor>log 2 x\<rfloor> < e + 53"
    by (simp add: two_powi_less_iff)
  with e show ?thesis by (simp add: ulp_exp_def)
qed

lemma round_pos_repr:
  assumes x: "x = of_int m * 2 powi e" and m: "0 < m" "m < 2 ^ 53" and e: "- 1074 \<le> e"
    and fin: "x < huge"
  shows "round_pos x = Finite x"
proof -
  define E where "E = ulp_exp x"
  have Ee: "E \<le> e" unfolding E_def using x m e by (rule ulp_exp_le)
  have "x / 2 powi E = of_int m * 2 powi (e - E)"
    unfolding x by (simp add: two_powi_diff)
  also have "\<dots> = of_int (m * 2 ^ nat (e - E))"
    using Ee by (simp add: two_powi_nat)
  finally have q: "x / 2 powi E = of_int (m * 2 ^ nat (e - E))" .
  have "of_int (rhe (x / 2 powi E)) * 2 powi E = x"
    unfolding q rhe_of_int using q by (simp add: field_simps)
  then show ?thesis
    using fin by (simp add: round_pos_def E_def[symmetric] Let_def)
qed

lemma ulp_exp_ge: "- 1074 \<le> ulp_exp x"
  by (simp add: ulp_exp_def)

lemma rhe_scaled_bounds:
  assumes "0 < x"
  shows "0 \<le> rhe (x / 2 powi ulp_exp x)" and "rhe (x / 2 powi ulp_exp x) \<le> 2 ^ 53"
proof -
  let ?E = "ulp_exp x" and ?k = "\<lfloor>log 2 x\<rfloor>"
  have "(of_int 0 :: real) \<le> x / 2 powi ?E" using assms by simp
  then show "0 \<le> rhe (x / 2 powi ?E)" by (rule rhe_ge)
  have "?k + 1 - ?E \<le> 53" by (simp add: ulp_exp_def)
  then have "(2::real) powi (?k + 1 - ?E) \<le> 2 powi 53" by (simp only: two_powi_le_iff)
  moreover have "x / 2 powi ?E < 2 powi (?k + 1 - ?E)"
    using floor_log2_bounds(2)[OF assms] by (simp add: two_powi_diff divide_strict_right_mono)
  ultimately have "x / 2 powi ?E \<le> of_int (2 ^ 53)" by simp
  then show "rhe (x / 2 powi ?E) \<le> 2 ^ 53" by (rule rhe_le)
qed

lemma round_pos_cases:
  assumes "0 < x"
  shows "round_pos x = PInf \<or> round_pos x = Finite 0 \<or>
    (\<exists>m e. round_pos x = Finite (of_int m * 2 powi e) \<and> 0 < m \<and> m < 2 ^ 53 \<and> - 1074 \<le> e \<and>
       of_int m * 2 powi e < huge)"
proof -
  define E where "E = ulp_exp x"
  define M where "M = rhe (x / 2 powi E)"
  have M: "0 \<le> M" "M \<le> 2 ^ 53"
    unfolding M_def E_def using rhe_scaled_bounds[OF assms] by simp_all
  have E: "- 1074 \<le> E" unfolding E_def by (rule ulp_exp_ge)
  have rp: "round_pos x = (if huge \<le> of_int M * 2 powi E then PInf else Finite (of_int M * 2 powi E))"
    by (simp add: round_pos_def Let_def E_def M_def)
  show ?thesis
  proof (cases "huge \<le> of_int M * 2 powi E")
    case True
    with rp show ?thesis by simp
  next
    case False
    then have fin: "of_int M * 2 powi E < huge" by simp
    from False rp have rpf: "round_pos x = Finite (of_int M * 2 powi E)" by simp
    consider "M = 0" | "0 < M" "M < 2 ^ 53" | "M = 2 ^ 53" using M by linarith
    then show ?thesis
    proof cases
      case 1
      with rpf show ?thesis by simp
    next
      case 2
      with rpf fin E show ?thesis by blast
    next
      case 3
      have eq: "of_int M * 2 powi E = of_int (2 ^ 52) * (2::real) powi (E + 1)"
        unfolding 3 by (simp add: two_powi_add)
      have "round_pos x = Finite (of_int (2 ^ 52) * 2 powi (E + 1)) \<and> (0::int) < 2 ^ 52 \<and>
          (2::int) ^ 52 < 2 ^ 53 \<and> - 1074 \<le> E + 1 \<and> of_int (2 ^ 52) * 2 powi (E + 1) < huge"
        using rpf fin E unfolding eq by simp
      then show ?thesis by blast
    qed
  qed
qed

lemma round64_zero [simp]: "round64 0 = Finite 0"
  by (simp add: round64_def)

lemma round64_repr:
  assumes "0 < m" "m < 2 ^ 53" "- 1074 \<le> e" "of_int m * 2 powi e < huge"
  shows "round64 (of_int m * 2 powi e) = Finite (of_int m * 2 powi e)"
    and "round64 (- (of_int m * 2 powi e)) = Finite (- (of_int m * 2 powi e))"
proof -
  have pos: "0 < of_int m * (2::real) powi e" using assms(1) by simp
  have rp: "round_pos (of_int m * 2 powi e) = Finite (of_int m * 2 powi e)"
    using assms by (intro round_pos_repr[where m = m and e = e]) simp_all
  show "round64 (of_int m * 2 powi e) = Finite (of_int m * 2 powi e)"
    using pos rp by (simp add: round64_def)
  show "round64 (- (of_int m * 2 powi e)) = Finite (- (of_int m * 2 powi e))"
    using pos rp by (simp add: round64_def)
qed

lemma round_pos_is_double:
  assumes "0 < x"
  shows "is_double (round_pos x)" and "is_double (dneg (round_pos x))"
  using round_pos_cases[OF assms]
  by (auto simp: is_double_def round64_repr)

lemma round64_is_double [simp]: "is_double (round64 x)"
  using round_pos_is_double[of x] round_pos_is_double[of "- x"]
  by (cases "x = 0") (auto simp: round64_def is_double_def)

lemma round64_id: "is_double (Finite x) \<Longrightarrow> round64 x = Finite x"
  by (simp add: is_double_def)

lemma round_pos_nonneg:
  assumes "0 < x"
  shows "round_pos x = PInf \<or> (\<exists>r. round_pos x = Finite r \<and> 0 \<le> r)"
  using round_pos_cases[OF assms] by auto

subsection \<open>Rounding in the normal range\<close>

lemma ulp_exp_normal:
  assumes "2 powi k \<le> x" "x < 2 powi (k + 1)" "- 1022 \<le> k"
  shows "ulp_exp x = k - 52"
  using floor_log2_eq[OF assms(1,2)] assms(3) by (simp add: ulp_exp_def)

lemma round_pos_normal:
  assumes "2 powi k \<le> x" "x < 2 powi (k + 1)" "- 1022 \<le> k"
  defines "r \<equiv> of_int (rhe (x / 2 powi (k - 52))) * 2 powi (k - 52)"
  shows "round_pos x = (if huge \<le> r then PInf else Finite r)"
    and "2 powi k \<le> r" and "r \<le> 2 powi (k + 1)" and "\<bar>r - x\<bar> \<le> 2 powi (k - 53)"
proof -
  let ?u = "(2::real) powi (k - 52)"
  let ?q = "x / ?u"
  let ?M = "rhe ?q"
  have u: "0 < ?u" by simp
  show "round_pos x = (if huge \<le> r then PInf else Finite r)"
    using ulp_exp_normal[OF assms(1-3)] by (simp add: round_pos_def r_def Let_def)
  have k: "(2::real) powi k = 2 ^ 52 * ?u" "(2::real) powi (k + 1) = 2 ^ 53 * ?u"
    by (simp_all add: two_powi_diff two_powi_add)
  have "of_int (2 ^ 52) \<le> ?q"
    using assms(1) u unfolding k by (simp add: pos_le_divide_eq)
  then have lo: "2 ^ 52 \<le> ?M" by (rule rhe_ge)
  have "?q \<le> of_int (2 ^ 53)"
    using assms(2) u unfolding k by (simp add: pos_divide_le_eq)
  then have hi: "?M \<le> 2 ^ 53" by (rule rhe_le)
  have "(2::real) ^ 52 \<le> of_int ?M" using lo by (metis of_int_le_iff of_int_numeral of_int_power)
  then have "2 ^ 52 * ?u \<le> of_int ?M * ?u" using u by (simp add: mult_right_mono)
  then show "2 powi k \<le> r" unfolding k r_def .
  have "of_int ?M \<le> (2::real) ^ 53" using hi by (metis of_int_le_iff of_int_numeral of_int_power)
  then have "of_int ?M * ?u \<le> 2 ^ 53 * ?u" using u by (simp add: mult_right_mono)
  then show "r \<le> 2 powi (k + 1)" unfolding k r_def .
  have "r - x = (of_int ?M - ?q) * ?u" unfolding r_def by (simp add: field_simps)
  then have "\<bar>r - x\<bar> = \<bar>of_int ?M - ?q\<bar> * ?u" by (simp add: abs_mult)
  also have "\<dots> \<le> 1 / 2 * ?u"
    using rhe_error[of ?q] u by (intro mult_right_mono) simp_all
  also have "1 / 2 * ?u = 2 powi (k - 53)"
    by (simp add: two_powi_diff)
  finally show "\<bar>r - x\<bar> \<le> 2 powi (k - 53)" .
qed

section \<open>Signs and special values\<close>

text \<open>
  The results of the arithmetic operations are doubles. A sum of non-negative doubles and a
  power of a non-negative double are non-negative; a NaN can only come from a NaN or from
  the difference of two equal infinities.
\<close>

lemma round64_minus: "round64 (- x) = dneg (round64 x)"
proof -
  have "dneg (dneg d) = d" for d by (cases d) simp_all
  then show ?thesis by (simp add: round64_def)
qed

lemma fabs_dneg [simp]: "fabs (dneg d) = fabs d"
  by (cases d) simp_all

lemma dneg_dneg [simp]: "dneg (dneg d) = d"
  by (cases d) simp_all

lemma fabs_fsub_commute: "fabs (fsub x y) = fabs (fsub y x)"
proof (cases x; cases y)
  fix u v assume "x = Finite u" "y = Finite v"
  moreover have "fabs (round64 (u - v)) = fabs (round64 (v - u))"
    using round64_minus[of "u - v"] by simp
  ultimately show ?thesis by (simp add: fsub_def)
qed (simp_all add: fsub_def)

lemma nonneg_simps [simp]:
  "nonneg (Finite x) = (0 \<le> x)" "nonneg PInf" "\<not> nonneg NInf" "\<not> nonneg NaN"
  by (simp_all add: nonneg_def)

lemma round64_nonneg: "0 \<le> x \<Longrightarrow> nonneg (round64 x)"
  using round_pos_nonneg[of x] by (cases "x = 0") (auto simp: round64_def)

lemma is_double_simps [simp]: "is_double PInf" "is_double NInf" "is_double NaN" "is_double (Finite 0)"
  by (simp_all add: is_double_def)

lemma is_double_dneg: "is_double d \<Longrightarrow> is_double (dneg d)"
  by (cases d) (simp_all add: is_double_def round64_minus)

lemma is_double_fabs: "is_double d \<Longrightarrow> is_double (fabs d)"
proof (cases d)
  case (Finite x)
  assume "is_double d"
  with Finite is_double_dneg[of d] show ?thesis
    by (cases "0 \<le> x") (simp_all add: abs_if)
qed simp_all

lemma is_double_fadd [simp]: "is_double (fadd x y)"
  by (cases x; cases y) simp_all

lemma is_double_fsub [simp]: "is_double (fsub x y)"
  by (simp add: fsub_def)

lemma fadd_nonneg: "nonneg x \<Longrightarrow> nonneg y \<Longrightarrow> nonneg (fadd x y)"
  by (cases x; cases y) (simp_all add: round64_nonneg)

lemma fadd_nonneg_or_NaN:
  "nonneg x \<or> x = NaN \<Longrightarrow> nonneg y \<or> y = NaN \<Longrightarrow> nonneg (fadd x y) \<or> fadd x y = NaN"
  by (cases x; cases y) (simp_all add: round64_nonneg)

lemma fabs_nonneg_or_NaN: "nonneg (fabs d) \<or> fabs d = NaN"
  by (cases d) simp_all

lemma fabs_fsub_finite: "is_finite x \<Longrightarrow> is_finite y \<Longrightarrow> nonneg (fabs (fsub x y))"
proof (cases x; cases y)
  fix u v assume xy: "x = Finite u" "y = Finite v"
  show "nonneg (fabs (fsub x y))"
  proof (cases "round64 (u - v)")
    case (Finite r)
    with xy show ?thesis by (simp add: fsub_def)
  next
    case NaN
    moreover have "is_double (round64 (u - v))" by simp
    moreover have "round64 (u - v) \<noteq> NaN"
      using round_pos_nonneg[of "u - v"] round_pos_nonneg[of "v - u"]
      by (auto simp: round64_def)
    ultimately show ?thesis by simp
  qed (use xy in \<open>simp_all add: fsub_def\<close>)
qed (simp_all add: is_finite_def)

lemma round64_not_NaN [simp]: "round64 x \<noteq> NaN"
  using round_pos_nonneg[of x] round_pos_nonneg[of "- x"]
  by (auto simp: round64_def)

lemma pow_nonneg: "nonneg x \<Longrightarrow> y \<noteq> NaN \<Longrightarrow> nonneg (pow x y)"
proof (cases y)
  case (Finite v)
  assume "nonneg x"
  then show ?thesis
    using Finite by (cases x) (auto simp: round64_nonneg pow.simps)
next
  case PInf
  assume "nonneg x"
  then show ?thesis using PInf by (cases x) (auto simp: pow.simps)
next
  case NInf
  assume "nonneg x"
  then show ?thesis using NInf by (cases x) (auto simp: pow.simps)
qed simp

lemma pow_NaN_base: "y \<noteq> 0 \<Longrightarrow> pow NaN (Finite y) = NaN"
  by (simp add: pow.simps)

lemma pow_nonneg_or_NaN:
  "nonneg x \<or> x = NaN \<Longrightarrow> nonneg (pow x (Finite y)) \<or> pow x (Finite y) = NaN"
proof (cases "x = NaN")
  case True
  then show ?thesis by (simp add: pow.simps)
next
  case False
  assume "nonneg x \<or> x = NaN"
  with False have "nonneg x" by simp
  then have "nonneg (pow x (Finite y))" by (rule pow_nonneg) simp
  then show ?thesis ..
qed

lemma pow_one: "is_double x \<Longrightarrow> pow x (Finite 1) = x"
  by (cases x) (auto simp: odd_int_def is_double_def pow.simps)


section \<open>The loop adds the terms in index order\<close>

text \<open>
  The loop condition bounds the counter by \<^verbatim>\<open>a.n_elem\<close>. When \<open>b\<close> is at least as long as
  \<open>a\<close> no read is out of bounds, and the loop started at counter \<open>i\<close> with running sum \<open>s\<close>
  adds to \<open>s\<close> the terms from position \<open>i\<close> on, from left to right. A vector \<open>b\<close> shorter
  than \<open>a\<close> is read past its end (lemma \<open>Evaluate_short\<close>).
\<close>

lemma length_terms_of: "length (terms_of p a b) = min (length a) (length b)"
  by (simp add: terms_of_def)

lemma nth_terms_of:
  "i < length a \<Longrightarrow> i < length b \<Longrightarrow>
   terms_of p a b ! i = pow (fabs (fsub (a ! i) (b ! i))) (of_int32 p)"
  by (simp add: terms_of_def)

lemma Evaluate_loop_fold:
  "length a \<le> length b \<Longrightarrow>
   Evaluate_loop p a b i s = Inr (foldl fadd s (drop i (terms_of p a b)))"
proof (induction p a b i s rule: Evaluate_loop.induct)
  case (1 t_pow a b i s)
  show ?case
  proof (cases "i < length a")
    case True
    then have ib: "i < length b" using "1.prems" by simp
    let ?t = "pow (fabs (fsub (a ! i) (b ! i))) (of_int32 t_pow)"
    have "Evaluate_loop t_pow a b (i + 1) (fadd s ?t) =
        Inr (foldl fadd (fadd s ?t) (drop (i + 1) (terms_of t_pow a b)))"
      using True ib "1.prems"
      by (intro "1.IH") (simp_all add: n_elem_def elem_def)
    moreover have "drop i (terms_of t_pow a b) = ?t # drop (i + 1) (terms_of t_pow a b)"
      using True ib Cons_nth_drop_Suc[of i "terms_of t_pow a b"]
      by (simp add: length_terms_of nth_terms_of)
    ultimately show ?thesis
      using True ib
      by (simp add: Evaluate_loop.simps[of t_pow a b i s] elem_def n_elem_def)
  next
    case False
    then show ?thesis
      using "1.prems"
      by (simp add: Evaluate_loop.simps[of t_pow a b i s] n_elem_def length_terms_of)
  qed
qed

lemma Evaluate_no_root:
  "length a \<le> length b \<Longrightarrow> Evaluate p False a b = Inr (fl_sum p a b)"
  by (simp add: Evaluate_def Evaluate_loop_fold fl_sum_def)

lemma Evaluate_root:
  "length a \<le> length b \<Longrightarrow> Evaluate p True a b = Inr (fl_dist p a b)"
  by (simp add: Evaluate_def Evaluate_loop_fold fl_sum_def fl_dist_def)

lemma Evaluate_loop_short:
  "length b < length a \<Longrightarrow> i \<le> length b \<Longrightarrow> Evaluate_loop p a b i s = Inl OutOfBounds"
proof (induction p a b i s rule: Evaluate_loop.induct)
  case (1 t_pow a b i s)
  show ?case
  proof (cases "i < length b")
    case True
    let ?t = "pow (fabs (fsub (a ! i) (b ! i))) (of_int32 t_pow)"
    have "Evaluate_loop t_pow a b (i + 1) (fadd s ?t) = Inl OutOfBounds"
      using True "1.prems"
      by (intro "1.IH") (simp_all add: n_elem_def elem_def)
    then show ?thesis
      using True "1.prems"
      by (simp add: Evaluate_loop.simps[of t_pow a b i s] elem_def n_elem_def)
  next
    case False
    with "1.prems" have "i = length b" by simp
    then show ?thesis
      using "1.prems"
      by (simp add: Evaluate_loop.simps[of t_pow a b "length b" s] elem_def n_elem_def)
  qed
qed

lemma Evaluate_short:
  "length b < length a \<Longrightarrow> Evaluate p tr a b = Inl OutOfBounds"
  by (simp add: Evaluate_def Evaluate_loop_short)

lemma terms_of_take: "terms_of p a (take (length a) b) = terms_of p a b"
proof -
  have "zip a (take (length a) b) = take (length a) (zip a b)"
    by (simp add: take_zip)
  also have "\<dots> = zip a b" by simp
  finally have "zip a (take (length a) b) = zip a b" .
  then show ?thesis by (simp add: terms_of_def)
qed

lemma terms_of_commute: "length a = length b \<Longrightarrow> terms_of p a b = terms_of p b a"
  by (rule nth_equalityI) (simp_all add: length_terms_of nth_terms_of fabs_fsub_commute)

section \<open>Properties of Evaluate\<close>

lemma huge_gt: "(2::real) ^ 53 < huge"
  by (simp add: huge_def)

lemma round64_dyadic:
  assumes "0 < m" "m < 2 ^ 53" "j \<le> 1074"
  shows "round64 (of_int m / 2 ^ j) = Finite (of_int m / 2 ^ j)"
    and "round64 (- (of_int m / 2 ^ j)) = Finite (- (of_int m / 2 ^ j))"
proof -
  have eq: "of_int m / 2 ^ j = of_int m * (2::real) powi (- int j)"
    by (simp add: power_int_minus field_simps)
  have "of_int m / 2 ^ j \<le> (of_int m :: real)"
    using assms(1) by (simp add: divide_le_eq)
  also have "\<dots> < 2 ^ 53" using assms(2) by (metis of_int_less_numeral_power_cancel_iff)
  finally have fin: "of_int m * (2::real) powi (- int j) < huge"
    using huge_gt unfolding eq by linarith
  show "round64 (of_int m / 2 ^ j) = Finite (of_int m / 2 ^ j)"
    unfolding eq using assms fin by (intro round64_repr(1)) simp_all
  show "round64 (- (of_int m / 2 ^ j)) = Finite (- (of_int m / 2 ^ j))"
    unfolding eq using assms fin by (intro round64_repr(2)) simp_all
qed

lemma round64_of_int: "\<bar>n\<bar> < 2 ^ 53 \<Longrightarrow> round64 (of_int n) = Finite (of_int n)"
proof -
  assume n: "\<bar>n\<bar> < 2 ^ 53"
  consider "n = 0" | "0 < n" | "n < 0" by linarith
  then show ?thesis
  proof cases
    case 1
    then show ?thesis by simp
  next
    case 2
    with n round64_dyadic(1)[of n 0] show ?thesis by simp
  next
    case 3
    with n round64_dyadic(2)[of "- n" 0] show ?thesis by simp
  qed
qed

lemma round64_small:
  "round64 3 = Finite 3" "round64 4 = Finite 4" "round64 7 = Finite 7" "round64 9 = Finite 9"
  "round64 16 = Finite 16" "round64 25 = Finite 25" "round64 5 = Finite 5"
  "round64 (- 3) = Finite (- 3)" "round64 (- 4) = Finite (- 4)" "round64 1 = Finite 1"
  "round64 (1 / 2) = Finite (1 / 2)"
  using round64_of_int[of 3] round64_of_int[of 4] round64_of_int[of 7] round64_of_int[of 9]
    round64_of_int[of 16] round64_of_int[of 25] round64_of_int[of 5] round64_of_int[of "- 3"]
    round64_of_int[of "- 4"] round64_of_int[of 1] round64_dyadic(1)[of 1 1]
  by simp_all

lemma powr_25_half: "(25::real) powr (1 / 2) = 5"
proof -
  have "(25::real) powr (1 / 2) = sqrt 25" by (simp add: powr_half_sqrt)
  also have "sqrt 25 = sqrt (5\<^sup>2)" by simp
  also have "\<dots> = 5" by simp
  finally show ?thesis .
qed

text \<open>
  Claim C9. On \<open>a = [0, 0]\<close>, \<open>b = [3, 4]\<close> the three presets return 7
  (\<^verbatim>\<open>ManhattanDistance\<close>), 25 (\<^verbatim>\<open>SquaredEuclideanDistance\<close>) and 5
  (\<^verbatim>\<open>EuclideanDistance\<close>).
\<close>

theorem presets_at_0_0_3_4:
  "ManhattanDistance [Finite 0, Finite 0] [Finite 3, Finite 4] = Inr (Finite 7) \<and>
   SquaredEuclideanDistance [Finite 0, Finite 0] [Finite 3, Finite 4] = Inr (Finite 25) \<and>
   EuclideanDistance [Finite 0, Finite 0] [Finite 3, Finite 4] = Inr (Finite 5)"
  by (simp add: ManhattanDistance_def SquaredEuclideanDistance_def EuclideanDistance_def
      Evaluate_root Evaluate_no_root fl_dist_def fl_sum_def terms_of_def of_int32_def fsub_def
      round64_small powr_25_half pow.simps)

text \<open>
  Claim C4. Symmetry: for vectors of equal length, any positive integer power and either
  value of \<^verbatim>\<open>t_take_root\<close>, \<^verbatim>\<open>Evaluate(a, b)\<close> and \<^verbatim>\<open>Evaluate(b, a)\<close> are the same double.
\<close>

theorem Evaluate_symmetric:
  "0 < sint p \<Longrightarrow> length a = length b \<Longrightarrow> Evaluate p tr a b = Evaluate p tr b a"
proof -
  assume len: "length a = length b"
  have s: "fl_sum p a b = fl_sum p b a"
    using len by (simp add: fl_sum_def terms_of_commute)
  show ?thesis
  proof (cases tr)
    case True
    then show ?thesis
      using len s by (simp add: Evaluate_root fl_dist_def)
  next
    case False
    then show ?thesis
      using len s by (simp add: Evaluate_no_root)
  qed
qed

theorem Evaluate_symmetric_witness:
  "0 < sint (2 :: 32 word) \<and> length [Finite 0, Finite 0] = length [Finite 3, Finite 4] \<and>
   Evaluate 2 True [Finite 0, Finite 0] [Finite 3, Finite 4] =
   Evaluate 2 True [Finite 3, Finite 4] [Finite 0, Finite 0]"
  using Evaluate_symmetric[of 2 "[Finite 0, Finite 0]" "[Finite 3, Finite 4]" True] by simp

text \<open>
  Claim C10. \<^verbatim>\<open>Evaluate\<close> reads both vectors at the positions below \<^verbatim>\<open>a.n_elem\<close> only.
  When the lengths are equal no read of \<open>b\<close> is out of bounds. When \<open>b\<close> is strictly longer
  than \<open>a\<close>, the result is the one computed on the first \<^verbatim>\<open>a.n_elem\<close> coordinates of
  \<open>b\<close>: the trailing coordinates of \<open>b\<close> are ignored, and no read is out of bounds. This
  holds for every value of the template parameters.
\<close>

theorem Evaluate_reads_prefix:
  "(length a = length b \<longrightarrow> Evaluate p tr a b \<noteq> Inl OutOfBounds) \<and>
   (length a < length b \<longrightarrow>
      Evaluate p tr a b = Evaluate p tr a (take (length a) b) \<and>
      Evaluate p tr a b \<noteq> Inl OutOfBounds)"
proof -
  have in_bounds: "Evaluate p tr a c \<noteq> Inl OutOfBounds" if "length a \<le> length c" for c
    using that by (cases tr) (simp_all add: Evaluate_root Evaluate_no_root)
  have prefix: "Evaluate p tr a b = Evaluate p tr a (take (length a) b)" if "length a < length b"
    using that
    by (cases tr) (simp_all add: Evaluate_root Evaluate_no_root fl_dist_def fl_sum_def terms_of_take)
  show ?thesis
  proof (intro conjI impI)
    assume "length a = length b"
    then show "Evaluate p tr a b \<noteq> Inl OutOfBounds" by (intro in_bounds) simp
  next
    assume "length a < length b"
    then show "Evaluate p tr a b = Evaluate p tr a (take (length a) b)" by (rule prefix)
  next
    assume "length a < length b"
    then show "Evaluate p tr a b \<noteq> Inl OutOfBounds" by (intro in_bounds) simp
  qed
qed

theorem Evaluate_reads_prefix_witness:
  "length [Finite 0, Finite 0] = length [Finite 3, Finite 4] \<and>
   Evaluate 2 True [Finite 0, Finite 0] [Finite 3, Finite 4] \<noteq> Inl OutOfBounds \<and>
   length [Finite 0, Finite 0] < length [Finite 3, Finite 4, Finite 9] \<and>
   Evaluate 2 True [Finite 0, Finite 0] [Finite 3, Finite 4, Finite 9] =
     Evaluate 2 True [Finite 0, Finite 0] [Finite 3, Finite 4] \<and>
   Evaluate 2 True [Finite 0, Finite 0] [Finite 3, Finite 4, Finite 9] \<noteq> Inl OutOfBounds"
  using Evaluate_reads_prefix[of "[Finite 0, Finite 0]" "[Finite 3, Finite 4]" 2 True]
        Evaluate_reads_prefix[of "[Finite 0, Finite 0]" "[Finite 3, Finite 4, Finite 9]" 2 True]
  by simp

lemma round64_recip:
  assumes "1 \<le> n" "n < 2 ^ 31"
  shows "\<exists>y. round64 (1 / of_int n) = Finite y \<and> 0 < y"
proof -
  define x :: real where "x = 1 / of_int n"
  define k where "k = \<lfloor>log 2 x\<rfloor>"
  have n: "(1::real) \<le> of_int n" "(of_int n :: real) \<le> 2 ^ 31"
    using assms by (simp, metis less_imp_le of_int_le_numeral_power_cancel_iff)
  have pos: "0 < x" using assms by (simp add: x_def)
  have lo: "2 powi (- 31) \<le> x"
    using n by (simp add: x_def power_int_minus field_simps)
  have hi: "x \<le> 2 powi 0" using n by (simp add: x_def)
  have b: "2 powi k \<le> x" "x < 2 powi (k + 1)"
    unfolding k_def using floor_log2_bounds[OF pos] by simp_all
  have "(2::real) powi (- 31) < 2 powi (k + 1)" using lo b(2) by linarith
  then have k1: "- 31 \<le> k" by (simp only: two_powi_less_iff)
  have "(2::real) powi k \<le> 2 powi 0" using hi b(1) by linarith
  then have k2: "k \<le> 0" by (simp only: two_powi_le_iff)
  define r :: real where "r = of_int (rhe (x / 2 powi (k - 52))) * 2 powi (k - 52)"
  have norm: "- 1022 \<le> k" using k1 by simp
  note rn = round_pos_normal[OF b norm, folded r_def]
  have "(2::real) powi (k + 1) \<le> 2 powi 1" using k2 by (simp only: two_powi_le_iff)
  with rn(3) have "r \<le> 2" by simp
  then have "r < huge" using huge_gt by simp
  with rn(1) have "round_pos x = Finite r" by simp
  moreover have "0 < r" using rn(2) two_powi_pos[of k] by linarith
  ultimately show ?thesis using pos by (auto simp: round64_def x_def)
qed

lemma fdiv_one_pos:
  assumes "0 < sint p"
  shows "\<exists>y. fdiv (Finite 1) (of_int32 p) = Finite y \<and> 0 < y"
proof -
  have "sint p < 2 ^ 31" using sint_lt[of p] by simp
  with assms round64_recip[of "sint p"] show ?thesis
    by (auto simp: of_int32_def)
qed

lemma fdiv_one_not_NaN: "fdiv (Finite 1) (of_int32 p) \<noteq> NaN"
  by (simp add: of_int32_def)

lemma of_int32_pos:
  assumes "0 < sint p"
  shows "\<exists>y. of_int32 p = Finite y \<and> 0 < y"
proof -
  have "0 < (of_int (sint p) :: real)" using assms by (simp only: of_int_0_less_iff)
  then show ?thesis unfolding of_int32_def by blast
qed

lemma foldl_fadd_nonneg:
  "nonneg s \<Longrightarrow> list_all nonneg ts \<Longrightarrow> nonneg (foldl fadd s ts)"
  by (induction ts arbitrary: s) (simp_all add: fadd_nonneg)

lemma foldl_fadd_nonneg_or_NaN:
  "nonneg s \<or> s = NaN \<Longrightarrow> list_all (\<lambda>t. nonneg t \<or> t = NaN) ts \<Longrightarrow>
   nonneg (foldl fadd s ts) \<or> foldl fadd s ts = NaN"
  by (induction ts arbitrary: s) (simp_all add: fadd_nonneg_or_NaN)

lemma terms_nonneg_or_NaN: "list_all (\<lambda>t. nonneg t \<or> t = NaN) (terms_of p a b)"
proof -
  have "nonneg (pow (fabs (fsub u v)) (of_int32 p)) \<or> pow (fabs (fsub u v)) (of_int32 p) = NaN"
    for u v
    unfolding of_int32_def by (intro pow_nonneg_or_NaN fabs_nonneg_or_NaN)
  then show ?thesis by (auto simp: terms_of_def list_all_iff)
qed

lemma terms_nonneg:
  "all_finite a \<Longrightarrow> all_finite b \<Longrightarrow> list_all nonneg (terms_of p a b)"
proof -
  assume fin: "all_finite a" "all_finite b"
  have "nonneg (pow (fabs (fsub u v)) (of_int32 p))" if "(u, v) \<in> set (zip a b)" for u v
  proof -
    from that have "u \<in> set a" "v \<in> set b" by (auto dest: set_zip_leftD set_zip_rightD)
    with fin have "is_finite u" "is_finite v" by (simp_all add: all_finite_def list_all_iff)
    then have "nonneg (fabs (fsub u v))" by (rule fabs_fsub_finite)
    then show ?thesis by (rule pow_nonneg) (simp add: of_int32_def)
  qed
  then show ?thesis by (auto simp: terms_of_def list_all_iff)
qed

lemma fl_sum_nonneg_or_NaN: "nonneg (fl_sum p a b) \<or> fl_sum p a b = NaN"
  unfolding fl_sum_def by (intro foldl_fadd_nonneg_or_NaN terms_nonneg_or_NaN) simp

lemma fl_sum_nonneg: "all_finite a \<Longrightarrow> all_finite b \<Longrightarrow> nonneg (fl_sum p a b)"
  unfolding fl_sum_def by (intro foldl_fadd_nonneg terms_nonneg) simp_all

lemma pow_NaN_or:
  "y \<noteq> NaN \<Longrightarrow> nonneg x \<or> x = NaN \<Longrightarrow> nonneg (pow x y) \<or> pow x y = NaN"
proof (cases "x = NaN")
  case True
  assume "y \<noteq> NaN"
  then show ?thesis using True by (cases y) (auto simp: pow.simps)
next
  case False
  assume "y \<noteq> NaN" "nonneg x \<or> x = NaN"
  with False show ?thesis by (simp add: pow_nonneg)
qed

lemma fl_dist_nonneg_or_NaN: "nonneg (fl_dist p a b) \<or> fl_dist p a b = NaN"
  unfolding fl_dist_def by (intro pow_NaN_or fdiv_one_not_NaN fl_sum_nonneg_or_NaN)

lemma fl_dist_nonneg: "all_finite a \<Longrightarrow> all_finite b \<Longrightarrow> nonneg (fl_dist p a b)"
  unfolding fl_dist_def by (intro pow_nonneg fdiv_one_not_NaN fl_sum_nonneg)

text \<open>
  Claim C5, as amended. For vectors of equal length and a positive integer power,
  \<^verbatim>\<open>Evaluate(a, b)\<close> is at least 0 (possibly \<open>+infinity\<close>) or it is a NaN; and it is at least
  0 when every coordinate of \<open>a\<close> and of \<open>b\<close> is finite.
\<close>

theorem Evaluate_nonneg:
  "0 < sint p \<Longrightarrow> length a = length b \<Longrightarrow>
   \<exists>r. Evaluate p tr a b = Inr r \<and> (dle (Finite 0) r \<or> r = NaN) \<and>
       (all_finite a \<and> all_finite b \<longrightarrow> dle (Finite 0) r)"
proof -
  assume len: "length a = length b"
  show ?thesis
  proof (cases tr)
    case True
    with len fl_dist_nonneg_or_NaN[of p a b] fl_dist_nonneg[of a b p] show ?thesis
      by (auto simp: Evaluate_root nonneg_def)
  next
    case False
    with len fl_sum_nonneg_or_NaN[of p a b] fl_sum_nonneg[of a b p] show ?thesis
      by (auto simp: Evaluate_no_root nonneg_def)
  qed
qed

theorem Evaluate_nonneg_witness:
  "0 < sint (2 :: 32 word) \<and> length [Finite 0, Finite 0] = length [Finite 3, Finite 4] \<and>
   all_finite [Finite 0, Finite 0] \<and> all_finite [Finite 3, Finite 4] \<and>
   (\<exists>r. Evaluate 2 True [Finite 0, Finite 0] [Finite 3, Finite 4] = Inr r \<and> dle (Finite 0) r)"
  using Evaluate_nonneg[of 2 "[Finite 0, Finite 0]" "[Finite 3, Finite 4]" True]
  by (auto simp: all_finite_def is_finite_def)

text \<open>
  Claim C5 as stated fails. On \<open>a = [NaN]\<close>, \<open>b = [0]\<close> the result is a NaN, and the
  comparison \<open>0 <= NaN\<close> is false.
\<close>

theorem Evaluate_nonneg_counterexample:
  "Evaluate 1 False [NaN] [Finite 0] = Inr NaN \<and> \<not> dle (Finite 0) NaN"
  by (simp add: Evaluate_no_root fl_sum_def terms_of_def fsub_def of_int32_def pow.simps)

lemma foldl_fadd_zero: "foldl fadd (Finite 0) (replicate n (Finite 0)) = Finite 0"
  by (induction n) simp_all

lemma terms_of_self:
  assumes "0 < sint p" "all_finite a"
  shows "terms_of p a a = replicate (length a) (Finite 0)"
proof (rule nth_equalityI)
  show "length (terms_of p a a) = length (replicate (length a) (Finite 0))"
    by (simp add: length_terms_of)
  fix i assume "i < length (terms_of p a a)"
  then have i: "i < length a" by (simp add: length_terms_of)
  with assms(2) have "is_finite (a ! i)" by (simp add: all_finite_def list_all_length)
  then obtain x where x: "a ! i = Finite x" by (cases "a ! i") (simp_all add: is_finite_def)
  obtain y where y: "of_int32 p = Finite y" "0 < y" using of_int32_pos[OF assms(1)] by blast
  show "terms_of p a a ! i = replicate (length a) (Finite 0) ! i"
    using i x y by (simp add: nth_terms_of fsub_def pow.simps)
qed

text \<open>
  Claim C6, as amended. For every vector \<open>a\<close> whose coordinates are all finite, any positive
  integer power and either value of \<^verbatim>\<open>t_take_root\<close>, \<^verbatim>\<open>Evaluate(a, a)\<close> is 0; the root of the
  zero sum is 0 as well, because the rounded exponent \<^verbatim>\<open>1.0 / p\<close> is positive.
\<close>

theorem Evaluate_self:
  "0 < sint p \<Longrightarrow> all_finite a \<Longrightarrow> Evaluate p tr a a = Inr (Finite 0)"
proof -
  assume p: "0 < sint p" and fin: "all_finite a"
  have s: "fl_sum p a a = Finite 0"
    using terms_of_self[OF p fin] by (simp add: fl_sum_def foldl_fadd_zero)
  obtain y where y: "fdiv (Finite 1) (of_int32 p) = Finite y" "0 < y"
    using fdiv_one_pos[OF p] by blast
  show ?thesis
    using s y by (cases tr) (simp_all add: Evaluate_root Evaluate_no_root fl_dist_def pow.simps)
qed

theorem Evaluate_self_witness:
  "0 < sint (2 :: 32 word) \<and> all_finite [Finite 3, Finite 4] \<and>
   Evaluate 2 True [Finite 3, Finite 4] [Finite 3, Finite 4] = Inr (Finite 0) \<and>
   Evaluate 2 False [Finite 3, Finite 4] [Finite 3, Finite 4] = Inr (Finite 0)"
  using Evaluate_self[of 2 "[Finite 3, Finite 4]" True]
        Evaluate_self[of 2 "[Finite 3, Finite 4]" False]
  by (simp add: all_finite_def is_finite_def)

text \<open>
  Claim C6 as stated fails. For \<open>a = [+infinity]\<close> the difference \<open>a_0 - a_0\<close> is a NaN and so
  is the result; likewise for \<open>a = [NaN]\<close>.
\<close>

theorem Evaluate_self_counterexample:
  "Evaluate 2 True [PInf] [PInf] = Inr NaN \<and> Evaluate 2 False [NaN] [NaN] = Inr NaN"
  by (simp add: Evaluate_root Evaluate_no_root fl_dist_def fl_sum_def terms_of_def fsub_def
      of_int32_def round64_small pow.simps)

lemma round64_pos_eval:
  assumes "2 powi k \<le> x" and "x < 2 powi (k + 1)"
  shows "round64 x =
    (let e = max (k - 52) (- 1074); r = of_int (rhe (x / 2 powi e)) * 2 powi e
     in if huge \<le> r then PInf else Finite r)"
proof -
  have "0 < x" using assms(1) two_powi_pos[of k] by linarith
  then show ?thesis using round_pos_eval[OF assms] by (simp add: round64_def)
qed

lemma rhe_tie_odd: "rhe (10808639105689191 / 2) = 5404319552844596"
  by (simp add: rhe_def Let_def)

lemma round64_sum_01_02:
  "round64 (10808639105689191 / 2 ^ 55) = Finite (1351079888211149 / 2 ^ 52)"
proof -
  have "round64 (10808639105689191 / 2 ^ 55) =
    (let e = max (- 2 - 52) (- 1074);
         r = of_int (rhe (10808639105689191 / 2 ^ 55 / 2 powi e)) * 2 powi e
     in if huge \<le> r then PInf else Finite r)"
    by (rule round64_pos_eval) simp_all
  also have "\<dots> = Finite (1351079888211149 / 2 ^ 52)"
    using rhe_tie_odd by (simp add: huge_def)
  finally show ?thesis .
qed

lemma of_int32_one: "of_int32 1 = Finite 1"
  by (simp add: of_int32_def)

lemma fdiv_one_one: "fdiv (Finite 1) (of_int32 1) = Finite 1"
  by (simp add: of_int32_one round64_small)

lemma is_double_foldl_fadd: "is_double s \<Longrightarrow> is_double (foldl fadd s ts)"
  by (induction ts arbitrary: s) simp_all

lemma is_double_fl_sum: "is_double (fl_sum p a b)"
  unfolding fl_sum_def by (rule is_double_foldl_fadd) simp

lemma terms_of_one:
  "terms_of 1 a b = map (\<lambda>(u, v). fabs (fsub u v)) (zip a b)"
  by (simp add: terms_of_def of_int32_one pow_one is_double_fabs split_beta)

lemma Evaluate_one_fold:
  "length a = length b \<Longrightarrow>
   Evaluate 1 tr a b = Inr (foldl fadd (Finite 0) (map (\<lambda>(u, v). fabs (fsub u v)) (zip a b)))"
proof -
  assume len: "length a = length b"
  have s: "fl_sum 1 a b = foldl fadd (Finite 0) (map (\<lambda>(u, v). fabs (fsub u v)) (zip a b))"
    by (simp add: fl_sum_def terms_of_one)
  show ?thesis
  proof (cases tr)
    case True
    have "fl_dist 1 a b = fl_sum 1 a b"
      by (simp add: fl_dist_def fdiv_one_one pow_one is_double_fl_sum)
    with True len s show ?thesis by (simp add: Evaluate_root)
  next
    case False
    with len s show ?thesis by (simp add: Evaluate_no_root)
  qed
qed

text \<open>
  Claim C2, as amended. With power 1 and vectors of equal length, \<^verbatim>\<open>Evaluate(a, b)\<close> is the
  binary64 running sum, in index order, of the rounded absolute differences
  \<^verbatim>\<open>fabs(a_i - b_i)\<close>, and it is the same double whether \<^verbatim>\<open>t_take_root\<close> is false or
  true: \<^verbatim>\<open>pow(x, 1)\<close> and \<^verbatim>\<open>pow(sum, 1.0 / 1)\<close> return their first argument. It is not
  the exact sum of the absolute differences.
\<close>

theorem Evaluate_power_one:
  "length a = length b \<Longrightarrow>
   Evaluate 1 tr a b = Inr (foldl fadd (Finite 0) (map (\<lambda>(u, v). fabs (fsub u v)) (zip a b)))"
  by (rule Evaluate_one_fold)

theorem Evaluate_power_one_witness:
  "length [Finite 0, Finite 0] = length [Finite 3, Finite 4] \<and>
   Evaluate 1 True [Finite 0, Finite 0] [Finite 3, Finite 4] = Inr (Finite 7) \<and>
   Evaluate 1 False [Finite 0, Finite 0] [Finite 3, Finite 4] = Inr (Finite 7)"
  using Evaluate_power_one[of "[Finite 0, Finite 0]" "[Finite 3, Finite 4]" True]
        Evaluate_power_one[of "[Finite 0, Finite 0]" "[Finite 3, Finite 4]" False]
  by (simp add: fsub_def round64_small)

lemma d01_d02:
  "round64 (3602879701896397 / 2 ^ 55) = Finite (3602879701896397 / 2 ^ 55)"
  "round64 (3602879701896397 / 2 ^ 54) = Finite (3602879701896397 / 2 ^ 54)"
  using round64_dyadic(1)[of 3602879701896397 55] round64_dyadic(1)[of 3602879701896397 54]
  by simp_all

text \<open>
  Claim C2 as stated fails. On \<open>a = [0.1, 0.2]\<close> (the doubles nearest to these), \<open>b = [0, 0]\<close>
  the code returns \<open>1351079888211149 / 2^52\<close> for both values of \<^verbatim>\<open>t_take_root\<close>; the exact sum
  of the two absolute differences is \<open>10808639105689191 / 2^55\<close>, which is not a double.
\<close>

theorem Evaluate_power_one_counterexample:
  "is_double (Finite (3602879701896397 / 2 ^ 55)) \<and>
   is_double (Finite (3602879701896397 / 2 ^ 54)) \<and>
   Evaluate 1 False [Finite (3602879701896397 / 2 ^ 55), Finite (3602879701896397 / 2 ^ 54)]
     [Finite 0, Finite 0] = Inr (Finite (1351079888211149 / 2 ^ 52)) \<and>
   Evaluate 1 True [Finite (3602879701896397 / 2 ^ 55), Finite (3602879701896397 / 2 ^ 54)]
     [Finite 0, Finite 0] = Inr (Finite (1351079888211149 / 2 ^ 52)) \<and>
   \<bar>3602879701896397 / 2 ^ 55 - 0\<bar> + \<bar>3602879701896397 / 2 ^ 54 - 0\<bar>
     \<noteq> (1351079888211149 / 2 ^ 52 :: real)"
proof -
  let ?a = "[Finite (3602879701896397 / 2 ^ 55), Finite (3602879701896397 / 2 ^ 54)]"
  let ?b = "[Finite 0, Finite 0]"
  have e: "Evaluate 1 tr ?a ?b = Inr (Finite (1351079888211149 / 2 ^ 52))" for tr
    using Evaluate_one_fold[of ?a ?b tr] d01_d02 round64_sum_01_02
    by (simp add: fsub_def)
  show ?thesis
    using e[of False] e[of True] d01_d02 by (simp add: is_double_def)
qed

lemma of_int32_two: "of_int32 2 = Finite 2"
  by (simp add: of_int32_def)

lemma rhe_sq: "rhe (20282409603651679431146506027009 / 4503599627370496) = 4503599627370498"
  by (simp add: rhe_def Let_def)

lemma round64_sq:
  "round64 ((4503599627370497 / 2 ^ 52)\<^sup>2) = Finite (2251799813685249 / 2 ^ 51)"
proof -
  have "round64 ((4503599627370497 / 2 ^ 52)\<^sup>2) =
    (let e = max (0 - 52) (- 1074);
         r = of_int (rhe ((4503599627370497 / 2 ^ 52)\<^sup>2 / 2 powi e)) * 2 powi e
     in if huge \<le> r then PInf else Finite r)"
    by (rule round64_pos_eval) (simp_all add: power2_eq_square)
  also have "\<dots> = Finite (2251799813685249 / 2 ^ 51)"
    using rhe_sq by (simp add: huge_def power2_eq_square)
  finally show ?thesis .
qed

lemma round64_overflow: "round64 (2 ^ 1200) = PInf"
proof -
  have "round64 (2 ^ 1200) =
    (let e = max (1200 - 52) (- 1074);
         r = of_int (rhe (2 ^ 1200 / 2 powi e)) * 2 powi e
     in if huge \<le> r then PInf else Finite r)"
    by (rule round64_pos_eval) simp_all
  also have "\<dots> = PInf"
  proof -
    have "(2::real) ^ 1200 / 2 ^ 1148 = of_int (2 ^ 52)"
      by (simp add: power_diff[symmetric])
    then have "rhe ((2::real) ^ 1200 / 2 ^ 1148) = 2 ^ 52"
      by (simp only: rhe_of_int)
    moreover have "huge \<le> (2::real) ^ 52 * 2 ^ 1148" by (simp add: huge_def)
    ultimately show ?thesis by (simp add: Let_def)
  qed
  finally show ?thesis .
qed

lemma round64_two_600: "round64 (2 ^ 600) = Finite (2 ^ 600)"
  using round64_repr(1)[of 1 600] by (simp add: huge_def)

text \<open>
  Claim C1 as stated fails. With power 2 and no root, on \<open>a = [1 + 2^-52]\<close>, \<open>b = [0]\<close> the
  code returns \<open>1 + 2^-51\<close>, and the exact value is \<open>1 + 2^-51 + 2^-104\<close>; on \<open>a = [2^600]\<close>
  it returns \<open>+infinity\<close>, and the exact value is \<open>2^1200\<close>.
\<close>

theorem Evaluate_is_lp_formula_counterexample:
  "is_double (Finite (4503599627370497 / 2 ^ 52)) \<and>
   Evaluate 2 False [Finite (4503599627370497 / 2 ^ 52)] [Finite 0] =
     Inr (Finite (2251799813685249 / 2 ^ 51)) \<and>
   lp_sum 2 [4503599627370497 / 2 ^ 52] [0] \<noteq> 2251799813685249 / 2 ^ 51 \<and>
   is_double (Finite (2 ^ 600)) \<and>
   Evaluate 2 False [Finite (2 ^ 600)] [Finite 0] = Inr PInf"
proof -
  have x: "round64 (4503599627370497 / 2 ^ 52) = Finite (4503599627370497 / 2 ^ 52)"
    using round64_dyadic(1)[of 4503599627370497 52] by simp
  have r: "round64 (2251799813685249 / 2 ^ 51) = Finite (2251799813685249 / 2 ^ 51)"
    using round64_dyadic(1)[of 2251799813685249 51] by simp
  have e1: "Evaluate 2 False [Finite (4503599627370497 / 2 ^ 52)] [Finite 0] =
     Inr (Finite (2251799813685249 / 2 ^ 51))"
    using x r round64_sq
    by (simp add: Evaluate_no_root fl_sum_def terms_of_def fsub_def of_int32_two pow.simps)
  have e2: "Evaluate 2 False [Finite (2 ^ 600)] [Finite 0] = Inr PInf"
    using round64_two_600 round64_overflow
    by (simp add: Evaluate_no_root fl_sum_def terms_of_def fsub_def of_int32_two pow.simps)
  have l: "lp_sum 2 [4503599627370497 / 2 ^ 52] [0] \<noteq> 2251799813685249 / 2 ^ 51"
    by (simp add: lp_sum_def power2_eq_square)
  show ?thesis
    using e1 e2 l x round64_two_600 by (simp add: is_double_def)
qed

subsection \<open>The two presets of power 2\<close>
















subsection \<open>The root and the order of results\<close>















subsection \<open>Integer coordinates: no operation rounds\<close>

lemma int_term_le: "0 < P \<Longrightarrow> \<bar>d::int\<bar> \<le> \<bar>d\<bar> ^ P"
proof (cases "d = 0")
  case False
  assume "0 < P"
  with False show ?thesis using self_le_power[of "\<bar>d\<bar>" P] by simp
qed simp

lemma pow_int_exact:
  assumes p: "0 < sint p" and small: "\<bar>x - y\<bar> ^ nat (sint p) < 2 ^ 53"
  shows "pow (fabs (fsub (Finite (of_int x)) (Finite (of_int y)))) (of_int32 p) =
         Finite (of_int (\<bar>x - y\<bar> ^ nat (sint p)))"
proof -
  define P where "P = nat (sint p)"
  have P: "0 < P" "(of_int (sint p) :: real) = real P" using p by (simp_all add: P_def)
  have d: "\<bar>x - y\<bar> < 2 ^ 53"
    using int_term_le[OF P(1), of "x - y"] small unfolding P_def by linarith
  have "fsub (Finite (of_int x)) (Finite (of_int y)) = round64 (of_int (x - y))"
    by (simp add: fsub_def)
  also have "\<dots> = Finite (of_int (x - y))" using d by (rule round64_of_int)
  finally have f: "fabs (fsub (Finite (of_int x)) (Finite (of_int y))) = Finite (of_int \<bar>x - y\<bar>)"
    by simp
  have y: "of_int32 p = Finite (real P)" "0 < real P"
    using P unfolding of_int32_def by simp_all
  show ?thesis
  proof (cases "x - y = 0")
    case True
    then show ?thesis using f y P by (simp add: pow.simps P_def[symmetric])
  next
    case False
    then have pos: "0 < (of_int \<bar>x - y\<bar> :: real)" by simp
    have "(of_int \<bar>x - y\<bar> :: real) powr real P = of_int \<bar>x - y\<bar> ^ P"
      using pos by (rule powr_realpow)
    also have "\<dots> = of_int (\<bar>x - y\<bar> ^ P)" by simp
    finally have pw: "(of_int \<bar>x - y\<bar> :: real) powr real P = of_int (\<bar>x - y\<bar> ^ P)" .
    have "round64 (of_int (\<bar>x - y\<bar> ^ P)) = Finite (of_int (\<bar>x - y\<bar> ^ P))"
      using small by (intro round64_of_int) (simp add: P_def)
    then show ?thesis
      unfolding f y(1) P_def[symmetric] using pos y(2) pw
      by (simp add: pow.simps del: of_int_abs of_int_power)
  qed
qed

lemma terms_of_ints:
  assumes p: "0 < sint p" and small: "\<forall>t\<in>set (int_terms (nat (sint p)) xs ys). t < 2 ^ 53"
  shows "terms_of p (of_ints xs) (of_ints ys) = of_ints (int_terms (nat (sint p)) xs ys)"
proof -
  have "pow (fabs (fsub (Finite (of_int x)) (Finite (of_int y)))) (of_int32 p) =
         Finite (of_int (\<bar>x - y\<bar> ^ nat (sint p)))" if "(x, y) \<in> set (zip xs ys)" for x y
  proof -
    from that have "\<bar>x - y\<bar> ^ nat (sint p) \<in> set (int_terms (nat (sint p)) xs ys)"
      by (force simp: int_terms_def)
    with small have "\<bar>x - y\<bar> ^ nat (sint p) < 2 ^ 53" by blast
    with p show ?thesis by (rule pow_int_exact)
  qed
  then show ?thesis
    by (auto simp: terms_of_def of_ints_def int_terms_def zip_map_map)
qed

lemma foldl_fadd_ints:
  "0 \<le> s \<Longrightarrow> \<forall>t\<in>set ts. 0 \<le> t \<Longrightarrow> s + sum_list ts < 2 ^ 53 \<Longrightarrow>
   foldl fadd (Finite (of_int s)) (of_ints ts) = Finite (of_int (s + sum_list ts))"
proof (induction ts arbitrary: s)
  case Nil
  then show ?case by (simp add: of_ints_def)
next
  case (Cons t ts)
  have t: "0 \<le> t" and rest: "\<forall>u\<in>set ts. 0 \<le> u" using Cons.prems(2) by simp_all
  have "0 \<le> sum_list ts" using rest by (simp add: sum_list_nonneg)
  then have st: "\<bar>s + t\<bar> < 2 ^ 53" using Cons.prems(1,3) t by simp
  have "fadd (Finite (of_int s)) (Finite (of_int t)) = round64 (of_int (s + t))" by simp
  also have "\<dots> = Finite (of_int (s + t))" using st by (rule round64_of_int)
  finally have step: "fadd (Finite (of_int s)) (Finite (of_int t)) = Finite (of_int (s + t))" .
  have "foldl fadd (Finite (of_int (s + t))) (of_ints ts) = Finite (of_int (s + t + sum_list ts))"
    using Cons.prems t rest by (intro Cons.IH) (simp_all add: add.assoc)
  then show ?case
    using step by (simp add: of_ints_def add.assoc del: fadd.simps)
qed

lemma int_terms_nonneg: "\<forall>t\<in>set (int_terms P xs ys). 0 \<le> t"
  by (auto simp: int_terms_def)

lemma int_terms_small:
  assumes "sum_list (int_terms P xs ys) < 2 ^ 53"
  shows "\<forall>t\<in>set (int_terms P xs ys). t < 2 ^ 53"
proof
  fix t assume "t \<in> set (int_terms P xs ys)"
  then have "t \<le> sum_list (int_terms P xs ys)"
    using int_terms_nonneg[of P xs ys] by (intro member_le_sum_list) auto
  with assms show "t < 2 ^ 53" by linarith
qed

lemma fl_sum_ints:
  assumes "0 < sint p" "sum_list (int_terms (nat (sint p)) xs ys) < 2 ^ 53"
  shows "fl_sum p (of_ints xs) (of_ints ys) = Finite (of_int (sum_list (int_terms (nat (sint p)) xs ys)))"
proof -
  have "fl_sum p (of_ints xs) (of_ints ys) =
      foldl fadd (Finite (of_int 0)) (of_ints (int_terms (nat (sint p)) xs ys))"
    using terms_of_ints[OF assms(1) int_terms_small[OF assms(2)]] by (simp add: fl_sum_def)
  also have "\<dots> = Finite (of_int (0 + sum_list (int_terms (nat (sint p)) xs ys)))"
    using assms(2) int_terms_nonneg by (intro foldl_fadd_ints) simp_all
  finally show ?thesis by simp
qed

lemma lp_sum_ints:
  "length xs = length ys \<Longrightarrow>
   lp_sum P (map of_int xs) (map of_int ys) = of_int (sum_list (int_terms P xs ys))"
proof -
  assume len: "length xs = length ys"
  have "sum_list (int_terms P xs ys) = (\<Sum>i = 0..<length xs. int_terms P xs ys ! i)"
    using len by (simp add: sum_list_sum_nth int_terms_def)
  also have "\<dots> = (\<Sum>i = 0..<length xs. \<bar>xs ! i - ys ! i\<bar> ^ P)"
    using len by (intro sum.cong) (simp_all add: int_terms_def)
  finally have "sum_list (int_terms P xs ys) = (\<Sum>i<length xs. \<bar>xs ! i - ys ! i\<bar> ^ P)"
    by (simp add: atLeast0LessThan)
  moreover have "lp_sum P (map of_int xs) (map of_int ys) =
      (\<Sum>i<length xs. of_int (\<bar>xs ! i - ys ! i\<bar> ^ P))"
    using len by (simp add: lp_sum_def)
  ultimately show ?thesis by simp
qed

lemma Evaluate_ints_exact:
  assumes p: "0 < sint p" and len: "length xs = length ys"
    and small: "lp_sum (nat (sint p)) (map of_int xs) (map of_int ys) < 2 ^ 53"
  shows "Evaluate p False (of_ints xs) (of_ints ys) =
         Inr (Finite (lp_sum (nat (sint p)) (map of_int xs) (map of_int ys)))"
proof -
  let ?S = "sum_list (int_terms (nat (sint p)) xs ys)"
  have l: "lp_sum (nat (sint p)) (map of_int xs) (map of_int ys) = of_int ?S"
    using len by (rule lp_sum_ints)
  have "(of_int ?S :: real) < of_int (2 ^ 53)" using small unfolding l by simp
  then have "?S < 2 ^ 53" by (simp only: of_int_less_iff)
  then have "fl_sum p (of_ints xs) (of_ints ys) = Finite (of_int ?S)"
    using p by (intro fl_sum_ints)
  then show ?thesis
    using len unfolding l by (simp add: Evaluate_no_root of_ints_def)
qed

text \<open>
  Claim C1, as amended. For vectors \<open>a\<close>, \<open>b\<close> of equal length, \<^verbatim>\<open>Evaluate(a, b)\<close> returns the
  formula evaluated in binary64 arithmetic: the terms \<^verbatim>\<open>pow(fabs(a_i - b_i), p)\<close>, each
  difference and each power rounded, added from left to right with rounding after every
  addition; that sum when \<^verbatim>\<open>t_take_root\<close> is false, and \<^verbatim>\<open>pow\<close> of that sum with the rounded
  exponent \<^verbatim>\<open>1.0 / p\<close> when it is true. It is not the exact real value of the formula in
  general. The un-rooted result is the exact sum \<open>\<Sum> |a_i - b_i|^p\<close> when the power is positive,
  the coordinates are integers and that sum is below \<open>2^53\<close>: then no operation rounds.
\<close>

theorem Evaluate_is_fl_formula:
  "(length a = length b \<longrightarrow>
      Evaluate p True a b = Inr (fl_dist p a b) \<and> Evaluate p False a b = Inr (fl_sum p a b)) \<and>
   (0 < sint p \<and> length xs = length ys \<and>
    lp_sum (nat (sint p)) (map of_int xs) (map of_int ys) < 2 ^ 53 \<longrightarrow>
      Evaluate p False (of_ints xs) (of_ints ys) =
        Inr (Finite (lp_sum (nat (sint p)) (map of_int xs) (map of_int ys))))"
  using Evaluate_ints_exact[of p xs ys]
  by (simp add: Evaluate_root Evaluate_no_root)

theorem Evaluate_is_fl_formula_witness:
  "length [Finite 1, Finite 2] = length [Finite 4, Finite 0] \<and>
   Evaluate 3 True [Finite 1, Finite 2] [Finite 4, Finite 0] =
     Inr (fl_dist 3 [Finite 1, Finite 2] [Finite 4, Finite 0]) \<and>
   Evaluate 3 False [Finite 1, Finite 2] [Finite 4, Finite 0] =
     Inr (fl_sum 3 [Finite 1, Finite 2] [Finite 4, Finite 0]) \<and>
   0 < sint (3 :: 32 word) \<and> length [1, 2 :: int] = length [4, 0 :: int] \<and>
   lp_sum (nat (sint (3 :: 32 word))) (map of_int [1, 2]) (map of_int [4, 0]) < 2 ^ 53 \<and>
   Evaluate 3 False (of_ints [1, 2]) (of_ints [4, 0]) = Inr (Finite 35)"
proof -
  have l: "lp_sum 3 [1, 2] [4, 0] = 35"
    by (simp add: lp_sum_def lessThan_Suc numeral_2_eq_2 eval_nat_numeral)
  have n: "nat (sint (3 :: 32 word)) = 3" by simp
  show ?thesis
    using Evaluate_is_fl_formula[of "[Finite 1, Finite 2]" "[Finite 4, Finite 0]" 3 "[1, 2]" "[4, 0]"]
    unfolding n by (simp add: l)
qed

subsection \<open>Scaling\<close>























end
